theory Spec2Isabelle
  imports Main "HOL-Library.FSet"
begin

section \<open>Python string operations used by the crawler\<close>

text \<open>
  Strings are lists of characters whose code points lie below 256.  The three string
  methods that \<open>extract_text\<close> calls are written out: \<open>str.strip()\<close> without argument,
  \<open>str.splitlines()\<close> and \<open>str.split(sep)\<close> for the two-space separator.
\<close>

definition is_space :: "char \<Rightarrow> bool" where
  \<comment> \<open>the characters \<open>str.strip()\<close> removes: tab, LF, VT, FF, CR, FS, GS, RS, US, space,
      NEL and the no-break space\<close>
  "is_space c = (of_char c \<in> {9, 10, 11, 12, 13, 28, 29, 30, 31, 32, 133, 160 :: nat})"

definition is_linebreak :: "char \<Rightarrow> bool" where
  \<comment> \<open>the line boundaries of \<open>str.splitlines()\<close>: LF, VT, FF, CR, FS, GS, RS and NEL\<close>
  "is_linebreak c = (of_char c \<in> {10, 11, 12, 13, 28, 29, 30, 133 :: nat})"

definition strip :: "string \<Rightarrow> string" where
  "strip s = rev (dropWhile is_space (rev (dropWhile is_space s)))"

text \<open>
  \<open>splitlines_from cur s\<close> scans \<open>s\<close> with the current line \<open>cur\<close> held in reverse.  A
  line is closed at every boundary, CR LF counting as one, and a last line is produced
  only when it is not empty, so that \<open>"a\n".splitlines() == ["a"]\<close>.
\<close>

fun splitlines_from :: "string \<Rightarrow> string \<Rightarrow> string list" where
  "splitlines_from cur [] = (if cur = [] then [] else [rev cur])"
| "splitlines_from cur [c] =
     (if is_linebreak c then [rev cur] else [rev (c # cur)])"
| "splitlines_from cur (c # d # s) =
     (if c = CHR 0x0D \<and> d = CHR 0x0A then rev cur # splitlines_from [] s
      else if is_linebreak c then rev cur # splitlines_from [] (d # s)
      else splitlines_from (c # cur) (d # s))"

definition splitlines :: "string \<Rightarrow> string list" where
  "splitlines s = splitlines_from [] s"

text \<open>
  \<open>split_from cur s\<close> is \<open>s.split("  ")\<close>: the separator is matched from the left, the
  matches do not overlap, and empty pieces are kept.
\<close>

fun split_from :: "string \<Rightarrow> string \<Rightarrow> string list" where
  "split_from cur [] = [rev cur]"
| "split_from cur [c] = [rev (c # cur)]"
| "split_from cur (c # d # s) =
     (if c = CHR '' '' \<and> d = CHR '' '' then rev cur # split_from [] s
      else split_from (c # cur) (d # s))"

definition split_two_spaces :: "string \<Rightarrow> string list" where
  "split_two_spaces s = split_from [] s"

fun join :: "string \<Rightarrow> string list \<Rightarrow> string" where
  "join sep [] = []"
| "join sep [x] = x"
| "join sep (x # y # xs) = x @ sep @ join sep (y # xs)"

section \<open>The parse tree of a page\<close>

text \<open>
  \<open>BeautifulSoup(html, 'html.parser')\<close> yields a tree of tags and strings.  A tag has a
  name, its attributes and its children; a \<open>NavigableString\<close> is visible text; a
  \<open>Comment\<close> stands for the string classes (comments, declarations, doctypes) that
  \<open>get_text()\<close> leaves out.  The document is the list of its top-level nodes.
\<close>

datatype node =
    NavigableString string
  | Comment string
  | Tag string "(string \<times> string) list" "node list"

type_synonym soup = "node list"

text \<open>\<open>soup.get_text()\<close>: the visible strings below a node, in document order.\<close>

fun node_text :: "node \<Rightarrow> string" where
  "node_text (NavigableString t) = t"
| "node_text (Comment t) = []"
| "node_text (Tag n a cs) = concat (map node_text cs)"

definition get_text :: "soup \<Rightarrow> string" where
  "get_text doc = concat (map node_text doc)"

text \<open>
  \<open>for script in soup(names): script.decompose()\<close>: every tag whose name is listed is
  taken out of the tree together with everything below it.
\<close>

fun decompose :: "string list \<Rightarrow> node \<Rightarrow> node list" where
  "decompose names (Tag n a cs) =
     (if n \<in> set names then [] else [Tag n a (concat (map (decompose names) cs))])"
| "decompose names x = [x]"

definition decompose_all :: "string list \<Rightarrow> soup \<Rightarrow> soup" where
  "decompose_all names doc = concat (map (decompose names) doc)"

text \<open>\<open>soup.find_all(name, href=True)\<close>: the tags of that name that carry the attribute,
  in document order, a tag before the tags below it.\<close>

fun find_all_href :: "string \<Rightarrow> node \<Rightarrow> node list" where
  "find_all_href name (Tag n a cs) =
     (if n = name \<and> map_of a ''href'' \<noteq> None then [Tag n a cs] else [])
       @ concat (map (find_all_href name) cs)"
| "find_all_href name x = []"

fun href :: "node \<Rightarrow> string" where
  "href (Tag n a cs) = the (map_of a ''href'')"
| "href x = []"

definition hrefs :: "soup \<Rightarrow> string list" where
  \<comment> \<open>\<open>link['href']\<close> for each \<open>link\<close> of \<open>soup.find_all('a', href=True)\<close>\<close>
  "hrefs doc = map href (concat (map (find_all_href ''a'') doc))"

text \<open>\<open>soup.title\<close>: the first tag named \<open>title\<close> in document order, if there is one.\<close>

fun find_tags :: "string \<Rightarrow> node \<Rightarrow> node list" where
  "find_tags name (Tag n a cs) =
     (if n = name then [Tag n a cs] else []) @ concat (map (find_tags name) cs)"
| "find_tags name x = []"

definition title_tag :: "soup \<Rightarrow> node option" where
  "title_tag doc =
     (case concat (map (find_tags ''title'') doc) of [] \<Rightarrow> None | t # ts \<Rightarrow> Some t)"

text \<open>
  \<open>tag.string\<close>: the only child when it is a string, the \<open>.string\<close> of the only child
  when it is a tag, and Python's \<open>None\<close> when the tag has no child or several.
\<close>

fun dot_string :: "node \<Rightarrow> string option" where
  "dot_string (NavigableString t) = Some t"
| "dot_string (Comment t) = Some t"
| "dot_string (Tag n a [c]) = dot_string c"
| "dot_string (Tag n a cs) = None"

section \<open>The collaborators of the crawler\<close>

text \<open>
  The crawler calls four library functions.  They are parameters of the model; where the
  library may raise, the parameter returns \<open>None\<close> (or \<open>Inl\<close>).
  \<^item> \<open>urlparse\<close> gives the scheme and the network location of a URL;
  \<^item> \<open>urljoin\<close> resolves a reference against a base URL;
  \<^item> \<open>BeautifulSoup\<close> parses a page;
  \<^item> \<open>requests_get n u\<close> is the outcome of \<open>requests.get(u, ...)\<close> when it is the
    request number \<open>n\<close> of the run: an exception, or a status code and a body.
\<close>

record parsed =
  scheme :: string
  netloc :: string

datatype exn = RequestException | OtherException

record env =
  urlparse :: "string \<Rightarrow> parsed option"
  urljoin :: "string \<Rightarrow> string \<Rightarrow> string option"
  BeautifulSoup :: "string \<Rightarrow> soup option"
  requests_get :: "nat \<Rightarrow> string \<Rightarrow> exn + int \<times> string"

definition raise_for_status :: "int \<Rightarrow> bool" where
  \<comment> \<open>\<open>response.raise_for_status()\<close> raises \<open>HTTPError\<close> for client and server errors\<close>
  "raise_for_status status = (400 \<le> status \<and> status < 600)"

section \<open>SimpleCrawler\<close>

record page =
  url :: string
  title :: "string option"
  text_length :: nat
  links_found :: nat

datatype effect = Sleep int | Get string | Append string

text \<open>
  The fields of the object, the local \<open>pages_data\<close> of \<open>crawl\<close>, and the trace of the
  calls that act on the outside or on the queue: \<open>time.sleep\<close>, \<open>requests.get\<close> and
  \<open>to_visit.append\<close>.
\<close>

record crawler =
  start_url :: string
  max_pages :: int
  delay :: int
  visited :: "string fset"
  to_visit :: "string list"
  domain :: string
  pages_data :: "page list"
  effects :: "effect list"

definition init :: "env \<Rightarrow> string \<Rightarrow> int \<Rightarrow> int \<Rightarrow> crawler option" where
  "init E u n d =
     (case urlparse E u of
        None \<Rightarrow> None
      | Some p \<Rightarrow> Some \<lparr>start_url = u, max_pages = n, delay = d, visited = {||},
          to_visit = [u], domain = netloc p, pages_data = [], effects = []\<rparr>)"

definition is_valid_url :: "env \<Rightarrow> string \<Rightarrow> string \<Rightarrow> bool option" where
  "is_valid_url E dmn u =
     (case urlparse E u of
        None \<Rightarrow> None
      | Some p \<Rightarrow> Some (netloc p \<noteq> [] \<and> scheme p \<noteq> [] \<and> netloc p = dmn))"

text \<open>The loop of \<open>get_links\<close> over the references; an exception ends it.\<close>

fun collect_links :: "env \<Rightarrow> string \<Rightarrow> string \<Rightarrow> string list \<Rightarrow> string list option" where
  "collect_links E dmn u [] = Some []"
| "collect_links E dmn u (h # hs) =
     (case urljoin E u h of
        None \<Rightarrow> None
      | Some absolute_url \<Rightarrow>
          (case is_valid_url E dmn absolute_url of
             None \<Rightarrow> None
           | Some ok \<Rightarrow>
               (case collect_links E dmn u hs of
                  None \<Rightarrow> None
                | Some links \<Rightarrow> Some (if ok then absolute_url # links else links))))"

definition get_links :: "env \<Rightarrow> string \<Rightarrow> string \<Rightarrow> string \<Rightarrow> string list option" where
  "get_links E dmn u html =
     (case BeautifulSoup E html of
        None \<Rightarrow> None
      | Some doc \<Rightarrow> collect_links E dmn u (hrefs doc))"

definition clean :: "string \<Rightarrow> string" where
  "clean text =
     (let lines = map strip (splitlines text);
          chunks = map strip (concat (map split_two_spaces lines))
      in join '' '' (filter (\<lambda>chunk. chunk \<noteq> []) chunks))"

definition soup_text :: "soup \<Rightarrow> string" where
  "soup_text doc = clean (get_text (decompose_all [''script'', ''style''] doc))"

definition extract_text :: "env \<Rightarrow> string \<Rightarrow> string option" where
  "extract_text E html =
     (case BeautifulSoup E html of None \<Rightarrow> None | Some doc \<Rightarrow> Some (soup_text doc))"

definition soup_title :: "soup \<Rightarrow> string option" where
  "soup_title doc =
     (case title_tag doc of None \<Rightarrow> Some ''No title'' | Some t \<Rightarrow> dot_string t)"

definition page_title :: "env \<Rightarrow> string \<Rightarrow> string option option" where
  \<comment> \<open>the outer \<open>None\<close> is a parser exception, the inner one Python's \<open>None\<close>\<close>
  "page_title E html =
     (case BeautifulSoup E html of None \<Rightarrow> None | Some doc \<Rightarrow> Some (soup_title doc))"

text \<open>The loop over \<open>links\<close> that ends the body of \<open>crawl\<close>.\<close>

fun enqueue :: "crawler \<Rightarrow> string list \<Rightarrow> crawler" where
  "enqueue s [] = s"
| "enqueue s (link # links) =
     enqueue
       (if link |\<notin>| visited s \<and> link \<notin> set (to_visit s)
        then s\<lparr>to_visit := to_visit s @ [link], effects := effects s @ [Append link]\<rparr>
        else s)
       links"

fun is_get :: "effect \<Rightarrow> bool" where
  "is_get (Get u) = True"
| "is_get e = False"

definition requests :: "crawler \<Rightarrow> nat" where
  \<comment> \<open>how many requests the run has sent so far\<close>
  "requests s = length (filter is_get (effects s))"

text \<open>
  The body of the \<open>try\<close> statement for the dequeued \<open>u\<close>.  \<open>Inl (e, s')\<close> says that
  exception \<open>e\<close> was raised when the state was \<open>s'\<close>; \<open>Inr s'\<close> that the body ran to its
  end.  \<open>time.sleep\<close> raises \<open>ValueError\<close> for a negative delay.
\<close>

definition crawl_body :: "env \<Rightarrow> crawler \<Rightarrow> string \<Rightarrow> exn \<times> crawler + crawler" where
  "crawl_body E s u =
     (if visited s \<noteq> {||} \<and> delay s < 0 then Inl (OtherException, s)
      else
        let s1 = (if visited s \<noteq> {||} then s\<lparr>effects := effects s @ [Sleep (delay s)]\<rparr>
                  else s);
            s2 = s1\<lparr>effects := effects s1 @ [Get u]\<rparr>
        in case requests_get E (requests s) u of
             Inl e \<Rightarrow> Inl (e, s2)
           | Inr (status, html) \<Rightarrow>
               if raise_for_status status then Inl (RequestException, s2)
               else
                 let s3 = s2\<lparr>visited := finsert u (visited s2)\<rparr>
                 in case extract_text E html of
                      None \<Rightarrow> Inl (OtherException, s3)
                    | Some text \<Rightarrow>
                        (case get_links E (domain s3) u html of
                           None \<Rightarrow> Inl (OtherException, s3)
                         | Some links \<Rightarrow>
                             (case page_title E html of
                                None \<Rightarrow> Inl (OtherException, s3)
                              | Some t \<Rightarrow>
                                  Inr (enqueue
                                    (s3\<lparr>pages_data := pages_data s3 @
                                       [\<lparr>url = u, title = t, text_length = length text,
                                         links_found = length links\<rparr>]\<rparr>)
                                    links))))"

text \<open>
  One iteration of the \<open>while\<close> loop.  Both \<open>except\<close> clauses print the exception and
  fall through to the next iteration, so the state the exception left is the state the
  loop goes on with.  The loop condition keeps \<open>popleft\<close> away from an empty queue.
\<close>

definition crawl_step :: "env \<Rightarrow> crawler \<Rightarrow> crawler" where
  "crawl_step E s =
     (case to_visit s of
        [] \<Rightarrow> s
      | u # rest \<Rightarrow>
          let s0 = s\<lparr>to_visit := rest\<rparr>
          in if u |\<in>| visited s0 then s0
             else (case crawl_body E s0 u of Inl (e, s') \<Rightarrow> s' | Inr s' \<Rightarrow> s'))"

definition running :: "crawler \<Rightarrow> bool" where
  \<comment> \<open>\<open>self.to_visit and len(self.visited) < self.max_pages\<close>\<close>
  "running s = (to_visit s \<noteq> [] \<and> int (fcard (visited s)) < max_pages s)"

subsection \<open>What one iteration changes\<close>

lemma enqueue_visited: "visited (enqueue s links) = visited s"
  by (induction links arbitrary: s) simp_all

lemma enqueue_max_pages: "max_pages (enqueue s links) = max_pages s"
  by (induction links arbitrary: s) simp_all

lemma enqueue_domain: "domain (enqueue s links) = domain s"
  by (induction links arbitrary: s) simp_all

lemma enqueue_delay: "delay (enqueue s links) = delay s"
  by (induction links arbitrary: s) simp_all

lemma body_raises:
  assumes "crawl_body E s u = Inl (e, s')"
  shows "max_pages s' = max_pages s \<and> domain s' = domain s \<and> delay s' = delay s
    \<and> to_visit s' = to_visit s \<and> pages_data s' = pages_data s
    \<and> (visited s' = visited s \<or> visited s' = finsert u (visited s))"
  using assms unfolding crawl_body_def Let_def
  by (auto split: if_splits sum.splits prod.splits option.splits)

lemma body_returns:
  assumes "crawl_body E s u = Inr s'"
  shows "max_pages s' = max_pages s \<and> domain s' = domain s \<and> delay s' = delay s
    \<and> visited s' = finsert u (visited s)"
  using assms unfolding crawl_body_def Let_def
  by (auto split: if_splits sum.splits prod.splits option.splits
      simp: enqueue_visited enqueue_max_pages enqueue_domain enqueue_delay)

lemma step_cases:
  assumes "to_visit s = u # rest"
  shows "max_pages (crawl_step E s) = max_pages s \<and> domain (crawl_step E s) = domain s
    \<and> delay (crawl_step E s) = delay s
    \<and> (visited (crawl_step E s) = visited s \<and> to_visit (crawl_step E s) = rest
       \<or> u |\<notin>| visited s \<and> visited (crawl_step E s) = finsert u (visited s))"
proof (cases "u |\<in>| visited s")
  case True
  then show ?thesis using assms by (simp add: crawl_step_def)
next
  case False
  let ?s0 = "s\<lparr>to_visit := rest\<rparr>"
  show ?thesis
  proof (cases "crawl_body E ?s0 u")
    case (Inl r)
    obtain e s' where r: "r = (e, s')" by (cases r)
    from body_raises [of E ?s0 u e s'] Inl r False assms show ?thesis
      by (auto simp: crawl_step_def)
  next
    case (Inr s')
    from body_returns [of E ?s0 u s'] Inr False assms show ?thesis
      by (auto simp: crawl_step_def)
  qed
qed

lemma step_decreases:
  assumes "running s"
  shows "((E, crawl_step E s), (E, s)) \<in>
    measures [\<lambda>(E, s). nat (max_pages s - int (fcard (visited s))), \<lambda>(E, s). length (to_visit s)]"
proof -
  from assms obtain u rest where q: "to_visit s = u # rest"
    by (cases "to_visit s") (auto simp: running_def)
  from assms have lt: "int (fcard (visited s)) < max_pages s"
    by (simp add: running_def)
  from step_cases [OF q, of E] lt q show ?thesis
    by (auto simp: fcard_finsert_disjoint)
qed

section \<open>The loop\<close>

function crawl_loop :: "env \<Rightarrow> crawler \<Rightarrow> crawler" where
  "crawl_loop E s = (if running s then crawl_loop E (crawl_step E s) else s)"
  by pat_completeness auto
termination
  by (relation "measures [\<lambda>(E, s). nat (max_pages s - int (fcard (visited s))),
        \<lambda>(E, s). length (to_visit s)]") (rule wf_measures, erule step_decreases)

text \<open>The states at the head of the loop, from the first to the one that leaves it.\<close>

function crawl_states :: "env \<Rightarrow> crawler \<Rightarrow> crawler list" where
  "crawl_states E s = (if running s then s # crawl_states E (crawl_step E s) else [s])"
  by pat_completeness auto
termination
  by (relation "measures [\<lambda>(E, s). nat (max_pages s - int (fcard (visited s))),
        \<lambda>(E, s). length (to_visit s)]") (rule wf_measures, erule step_decreases)

declare crawl_loop.simps [simp del] crawl_states.simps [simp del]

definition crawl :: "env \<Rightarrow> crawler \<Rightarrow> page list" where
  "crawl E s = pages_data (crawl_loop E s)"

section \<open>A small site to run the crawler on\<close>

text \<open>
  The scheme and the network location as \<open>urllib.parse.urlparse\<close> splits them off a URL
  of printable ASCII characters: the scheme is what stands before the first colon when
  that is a letter followed by letters, digits, \<open>+\<close>, \<open>-\<close> and \<open>.\<close>; the network location
  is what follows \<open>//\<close> up to the next \<open>/\<close>, \<open>?\<close> or \<open>#\<close>; a network location with one
  square bracket and not the other raises \<open>ValueError\<close>.
\<close>

definition is_alpha :: "char \<Rightarrow> bool" where
  "is_alpha c = (let n = (of_char c :: nat) in (65 \<le> n \<and> n \<le> 90) \<or> (97 \<le> n \<and> n \<le> 122))"

definition is_scheme_char :: "char \<Rightarrow> bool" where
  "is_scheme_char c =
     (let n = (of_char c :: nat)
      in is_alpha c \<or> (48 \<le> n \<and> n \<le> 57) \<or> c = CHR ''+'' \<or> c = CHR ''-'' \<or> c = CHR ''.'')"

definition lower :: "char \<Rightarrow> char" where
  "lower c =
     (let n = (of_char c :: nat) in if 65 \<le> n \<and> n \<le> 90 then char_of (n + 32) else c)"

definition split_scheme :: "string \<Rightarrow> string \<times> string" where
  "split_scheme u =
     (let pre = takeWhile (\<lambda>c. c \<noteq> CHR '':'') u
      in if length pre < length u \<and> pre \<noteq> [] \<and> is_alpha (hd pre) \<and> list_all is_scheme_char pre
         then (map lower pre, drop (Suc (length pre)) u)
         else ([], u))"

definition urlparse_model :: "string \<Rightarrow> parsed option" where
  "urlparse_model u =
     (let (sch, rest) = split_scheme u;
          loc = (if take 2 rest = ''//''
                 then takeWhile (\<lambda>c. c \<noteq> CHR ''/'' \<and> c \<noteq> CHR ''?'' \<and> c \<noteq> CHR ''#'') (drop 2 rest)
                 else [])
      in if (CHR ''['' \<in> set loc) \<noteq> (CHR '']'' \<in> set loc) then None
         else Some \<lparr>scheme = sch, netloc = loc\<rparr>)"

text \<open>
  A site is a table from URLs to the outcome of a request and a table from page bodies
  to their parse trees.  A URL that is not listed does not answer; a body that is not
  listed is rejected by the parser.  The pages hold absolute references only, which
  \<open>urljoin\<close> returns as they are when it can parse them.
\<close>

definition site_env :: "(string \<times> (exn + int \<times> string)) list \<Rightarrow> (string \<times> soup) list \<Rightarrow> env" where
  "site_env web docs =
     \<lparr>urlparse = urlparse_model,
      urljoin = (\<lambda>base ref. map_option (\<lambda>p. ref) (urlparse_model ref)),
      BeautifulSoup = map_of docs,
      requests_get = (\<lambda>n u. case map_of web u of None \<Rightarrow> Inl RequestException | Some r \<Rightarrow> r)\<rparr>"

definition anchor :: "string \<Rightarrow> node" where
  "anchor ref = Tag ''a'' [(''href'', ref)] []"

definition home_html :: string where
  "home_html = ''<title>Home</title><a href=http://d/a></a><a href=http://d/b></a><a href=http://x/></a>''"

definition home_doc :: soup where
  "home_doc = [Tag ''title'' [] [NavigableString ''Home''],
     anchor ''http://d/a'', anchor ''http://d/b'', anchor ''http://x/'']"

definition a_html :: string where
  "a_html = ''<a href=http://d/c></a>''"

definition a_doc :: soup where
  "a_doc = [anchor ''http://d/c'']"

definition site_docs :: "(string \<times> soup) list" where
  "site_docs = [(home_html, home_doc), (a_html, a_doc), ([], [])]"

definition site :: env where
  "site = site_env
     [(''http://d/'', Inr (200, home_html)),
      (''http://d/a'', Inr (200, a_html)),
      (''http://d/b'', Inr (200, [])),
      (''http://d/c'', Inr (200, []))]
     site_docs"

definition site_crawler :: "int \<Rightarrow> int \<Rightarrow> crawler" where
  \<comment> \<open>\<open>SimpleCrawler('http://d/', n, d)\<close>\<close>
  "site_crawler n d =
     \<lparr>start_url = ''http://d/'', max_pages = n, delay = d, visited = {||},
      to_visit = [''http://d/''], domain = ''d'', pages_data = [], effects = []\<rparr>"

lemma init_site: "init site ''http://d/'' n d = Some (site_crawler n d)"
  by (simp add: init_def site_def site_env_def urlparse_model_def split_scheme_def
      is_alpha_def is_scheme_char_def lower_def site_crawler_def)

section \<open>Termination of the crawl\<close>

lemma crawl_loop_iterates:
  "\<exists>n. crawl_loop E s = (crawl_step E ^^ n) s
     \<and> \<not> running ((crawl_step E ^^ n) s)
     \<and> (\<forall>k<n. running ((crawl_step E ^^ k) s))"
proof (induction E s rule: crawl_loop.induct)
  case (1 E s)
  show ?case
  proof (cases "running s")
    case False
    then have "crawl_loop E s = (crawl_step E ^^ 0) s" "\<not> running ((crawl_step E ^^ 0) s)"
      by (simp_all add: crawl_loop.simps)
    then show ?thesis by blast
  next
    case True
    from 1 [OF True] obtain n where
      n: "crawl_loop E (crawl_step E s) = (crawl_step E ^^ n) (crawl_step E s)"
         "\<not> running ((crawl_step E ^^ n) (crawl_step E s))"
         "\<forall>k<n. running ((crawl_step E ^^ k) (crawl_step E s))"
      by blast
    have a: "crawl_loop E s = (crawl_step E ^^ Suc n) s"
      using True n(1) by (subst crawl_loop.simps) (simp add: funpow_swap1)
    have b: "\<not> running ((crawl_step E ^^ Suc n) s)"
      using n(2) by (simp add: funpow_swap1)
    have c: "\<forall>k<Suc n. running ((crawl_step E ^^ k) s)"
    proof (intro allI impI)
      fix k assume "k < Suc n"
      show "running ((crawl_step E ^^ k) s)"
      proof (cases k)
        case 0
        with True show ?thesis by simp
      next
        case (Suc j)
        with \<open>k < Suc n\<close> n(3) show ?thesis by (simp add: funpow_swap1)
      qed
    qed
    from a b c show ?thesis by blast
  qed
qed

text \<open>
  C10.  Whatever the requests, the parser and the URL functions answer or raise, the
  loop of \<open>crawl\<close> ends after finitely many iterations: there is a number \<open>n\<close> such
  that the loop condition holds before each of the first \<open>n\<close> iterations and fails after
  them, and what \<open>crawl\<close> is left with is the state after these \<open>n\<close> iterations.  No
  exception leaves an iteration, since both \<open>except\<close> clauses fall through to the next
  one, so the loop ends because the queue is empty or the page limit is reached.
\<close>

theorem crawl_terminates:
  "\<exists>n. crawl_loop E s = (crawl_step E ^^ n) s
     \<and> \<not> running ((crawl_step E ^^ n) s)
     \<and> (\<forall>k<n. running ((crawl_step E ^^ k) s))
     \<and> (to_visit (crawl_loop E s) = []
        \<or> max_pages (crawl_loop E s) \<le> int (fcard (visited (crawl_loop E s))))"
proof -
  from crawl_loop_iterates [of E s] obtain n where
    n: "crawl_loop E s = (crawl_step E ^^ n) s" "\<not> running ((crawl_step E ^^ n) s)"
       "\<forall>k<n. running ((crawl_step E ^^ k) s)"
    by blast
  from n(1,2) have "to_visit (crawl_loop E s) = []
      \<or> max_pages (crawl_loop E s) \<le> int (fcard (visited (crawl_loop E s)))"
    by (auto simp: running_def)
  with n show ?thesis by blast
qed

theorem crawl_terminates_witness:
  "\<exists>n. crawl_loop site (site_crawler 2 0) = (crawl_step site ^^ n) (site_crawler 2 0)
     \<and> \<not> running ((crawl_step site ^^ n) (site_crawler 2 0))
     \<and> (to_visit (crawl_loop site (site_crawler 2 0)) = []
        \<or> max_pages (crawl_loop site (site_crawler 2 0))
           \<le> int (fcard (visited (crawl_loop site (site_crawler 2 0)))))"
  using crawl_terminates [of site "site_crawler 2 0"] by blast

section \<open>The page limit\<close>

lemma crawl_states_bound:
  assumes "int (fcard (visited s)) \<le> max_pages s" and "t \<in> set (crawl_states E s)"
  shows "int (fcard (visited t)) \<le> max_pages s \<and> max_pages t = max_pages s"
  using assms
proof (induction E s rule: crawl_states.induct)
  case (1 E s)
  show ?case
  proof (cases "running s")
    case False
    with 1(3) have "t = s" by (subst (asm) crawl_states.simps) simp
    with 1(2) show ?thesis by simp
  next
    case True
    then obtain u rest where q: "to_visit s = u # rest"
      by (cases "to_visit s") (auto simp: running_def)
    from True have lt: "int (fcard (visited s)) < max_pages s"
      by (simp add: running_def)
    from step_cases [OF q, of E] lt
    have next_ok: "int (fcard (visited (crawl_step E s))) \<le> max_pages (crawl_step E s)"
      and same: "max_pages (crawl_step E s) = max_pages s"
      by (auto simp: fcard_finsert_disjoint)
    from 1(3) True have "t = s \<or> t \<in> set (crawl_states E (crawl_step E s))"
      by (subst (asm) crawl_states.simps) simp
    then show ?thesis
    proof
      assume "t = s"
      with 1(2) show ?thesis by simp
    next
      assume "t \<in> set (crawl_states E (crawl_step E s))"
      from 1(1) [OF True next_ok this] same show ?thesis by simp
    qed
  qed
qed

lemma crawl_states_running:
  "\<exists>pre. crawl_states E s = pre @ [crawl_loop E s] \<and> list_all running pre
     \<and> \<not> running (crawl_loop E s)"
proof (induction E s rule: crawl_states.induct)
  case (1 E s)
  show ?case
  proof (cases "running s")
    case False
    then have "crawl_states E s = [] @ [crawl_loop E s]" "\<not> running (crawl_loop E s)"
      by (simp_all add: crawl_states.simps crawl_loop.simps)
    then show ?thesis by (intro exI [of _ "[]"]) simp
  next
    case True
    from 1 [OF True] obtain pre where
      p: "crawl_states E (crawl_step E s) = pre @ [crawl_loop E (crawl_step E s)]"
         "list_all running pre" "\<not> running (crawl_loop E (crawl_step E s))"
      by blast
    from True have l: "crawl_loop E s = crawl_loop E (crawl_step E s)"
      by (subst crawl_loop.simps) simp
    from True p(1) l have "crawl_states E s = (s # pre) @ [crawl_loop E s]"
      by (subst crawl_states.simps) simp
    moreover from True p(2) have "list_all running (s # pre)" by simp
    ultimately show ?thesis using p(3) l by metis
  qed
qed

text \<open>
  C1.  A crawler built by \<open>SimpleCrawler(u, n, d)\<close> with a page limit \<open>n\<close> that is not
  negative (a crawl configuration has a limit of at least one) keeps the size of
  \<open>visited\<close> at or below \<open>n\<close> in every state at the head of the loop; in each of these
  states the loop stops exactly when the size equals \<open>n\<close> or the queue is empty; the
  states before the last one all go on, and the state the loop ends in has the size
  equal to \<open>n\<close> or the queue empty.
\<close>

theorem visited_never_exceeds_max_pages:
  assumes "init E u n d = Some s0" and "0 \<le> n"
  shows "(\<forall>s \<in> set (crawl_states E s0).
            int (fcard (visited s)) \<le> n
            \<and> (\<not> running s \<longleftrightarrow> int (fcard (visited s)) = n \<or> to_visit s = []))
    \<and> (\<exists>pre. crawl_states E s0 = pre @ [crawl_loop E s0] \<and> list_all running pre)
    \<and> int (fcard (visited (crawl_loop E s0))) \<le> n
    \<and> (int (fcard (visited (crawl_loop E s0))) = n \<or> to_visit (crawl_loop E s0) = [])"
proof -
  from assms have s0: "max_pages s0 = n" "int (fcard (visited s0)) \<le> max_pages s0"
    by (auto simp: init_def fcard_fempty split: option.splits)
  have inv: "int (fcard (visited s)) \<le> n \<and> max_pages s = n"
    if "s \<in> set (crawl_states E s0)" for s
    using crawl_states_bound [OF s0(2) that] s0(1) by simp
  have stop: "\<not> running s \<longleftrightarrow> int (fcard (visited s)) = n \<or> to_visit s = []"
    if "s \<in> set (crawl_states E s0)" for s
    using inv [OF that] by (auto simp: running_def)
  obtain pre where pre: "crawl_states E s0 = pre @ [crawl_loop E s0]" "list_all running pre"
    "\<not> running (crawl_loop E s0)"
    using crawl_states_running by blast
  then have fin: "crawl_loop E s0 \<in> set (crawl_states E s0)" by simp
  from inv [OF fin] stop [OF fin] pre inv stop show ?thesis by blast
qed

theorem visited_never_exceeds_max_pages_witness:
  "init site ''http://d/'' 2 0 = Some (site_crawler 2 0) \<and> (0::int) \<le> 2
   \<and> int (fcard (visited (crawl_loop site (site_crawler 2 0)))) \<le> 2
   \<and> (int (fcard (visited (crawl_loop site (site_crawler 2 0)))) = 2
      \<or> to_visit (crawl_loop site (site_crawler 2 0)) = [])"
  using visited_never_exceeds_max_pages [OF init_site, of 2 0] init_site [of 2 0]
  by simp

section \<open>Failures inside an iteration\<close>

definition fetch_fails :: "env \<Rightarrow> crawler \<Rightarrow> string \<Rightarrow> bool" where
  \<comment> \<open>\<open>requests.get\<close> or \<open>raise_for_status\<close> raises for the next request\<close>
  "fetch_fails E s u =
     (case requests_get E (requests s) u of
        Inl e \<Rightarrow> True
      | Inr (status, html) \<Rightarrow> raise_for_status status)"

definition extraction_fails :: "env \<Rightarrow> crawler \<Rightarrow> string \<Rightarrow> bool" where
  \<comment> \<open>the request succeeds and one of the three extractions raises\<close>
  "extraction_fails E s u =
     (case requests_get E (requests s) u of
        Inl e \<Rightarrow> False
      | Inr (status, html) \<Rightarrow>
          \<not> raise_for_status status
          \<and> (extract_text E html = None \<or> get_links E (domain s) u html = None
             \<or> page_title E html = None))"

definition not_modified_site :: env where
  \<comment> \<open>the start page answers 304 with an empty body\<close>
  "not_modified_site = site_env [(''http://d/'', Inr (304, []))] site_docs"

definition error_site :: env where
  \<comment> \<open>the start page answers 500\<close>
  "error_site = site_env [(''http://d/'', Inr (500, []))] site_docs"

definition broken_html :: string where
  "broken_html = ''<a href=http://[></a>''"

definition broken_site :: env where
  \<comment> \<open>the start page holds a reference that \<open>urljoin\<close> raises \<open>ValueError\<close> for\<close>
  "broken_site = site_env [(''http://d/'', Inr (200, broken_html))]
     [(broken_html, [anchor ''http://['']), ([], [])]"

lemma requests_to_visit_update [simp]: "requests (s\<lparr>to_visit := q\<rparr>) = requests s"
  by (simp add: requests_def)

text \<open>
  C2, as stated, fails: a response with status 304 is not a 2xx response, yet
  \<open>raise_for_status\<close> lets it pass, the URL is added to \<open>visited\<close> and a page record is
  appended.
\<close>

theorem non_2xx_status_counterexample:
  "to_visit (site_crawler 3 0) = [''http://d/'']
   \<and> requests_get not_modified_site (requests (site_crawler 3 0)) ''http://d/'' = Inr (304, [])
   \<and> \<not> (200 \<le> (304::int) \<and> (304::int) < 300)
   \<and> visited (crawl_step not_modified_site (site_crawler 3 0)) = {|''http://d/''|}
   \<and> pages_data (crawl_step not_modified_site (site_crawler 3 0)) =
       [\<lparr>url = ''http://d/'', title = Some ''No title'', text_length = 0, links_found = 0\<rparr>]"
  by code_simp

text \<open>
  C2, amended.  When the request for the dequeued URL \<open>u\<close> raises (network error,
  timeout) or answers with a status from 400 to 599, the iteration only removes \<open>u\<close>
  from the queue: \<open>visited\<close> and its size, the page records and the page limit are as
  before, the queue is the rest of the queue, so nothing was appended to it, and the
  loop goes on from that state.
\<close>

theorem failed_fetch_is_skipped:
  assumes "running s" and "to_visit s = u # rest" and "u |\<notin>| visited s"
    and "fetch_fails E s u"
  shows "visited (crawl_step E s) = visited s
    \<and> pages_data (crawl_step E s) = pages_data s
    \<and> to_visit (crawl_step E s) = rest
    \<and> max_pages (crawl_step E s) = max_pages s
    \<and> crawl_loop E s = crawl_loop E (crawl_step E s)"
proof -
  have "crawl_loop E s = crawl_loop E (crawl_step E s)"
    using assms(1) by (subst crawl_loop.simps) simp
  moreover have "visited (crawl_step E s) = visited s
    \<and> pages_data (crawl_step E s) = pages_data s
    \<and> to_visit (crawl_step E s) = rest
    \<and> max_pages (crawl_step E s) = max_pages s"
    using assms(2-4)
    by (auto simp: crawl_step_def crawl_body_def fetch_fails_def Let_def
        split: sum.splits prod.splits)
  ultimately show ?thesis by simp
qed

theorem failed_fetch_is_skipped_witness:
  "running (site_crawler 3 0) \<and> to_visit (site_crawler 3 0) = [''http://d/'']
   \<and> ''http://d/'' |\<notin>| visited (site_crawler 3 0)
   \<and> fetch_fails error_site (site_crawler 3 0) ''http://d/''
   \<and> visited (crawl_step error_site (site_crawler 3 0)) = {||}
   \<and> pages_data (crawl_step error_site (site_crawler 3 0)) = []
   \<and> to_visit (crawl_step error_site (site_crawler 3 0)) = []"
proof -
  have h1: "running (site_crawler 3 0)" by code_simp
  have h2: "to_visit (site_crawler 3 0) = [''http://d/'']" by code_simp
  have h3: "''http://d/'' |\<notin>| visited (site_crawler 3 0)" by code_simp
  have h4: "fetch_fails error_site (site_crawler 3 0) ''http://d/''" by code_simp
  have v: "visited (site_crawler 3 0) = {||}" "pages_data (site_crawler 3 0) = []"
    by (simp_all add: site_crawler_def)
  from failed_fetch_is_skipped [OF h1 h2 h3 h4] h1 h2 h3 h4 v show ?thesis by simp
qed

text \<open>
  C3, as stated, fails: \<open>visited.add(url)\<close> stands before the extraction, so a page
  whose extraction raises has been put into \<open>visited\<close> all the same.
\<close>

theorem extraction_error_counterexample:
  "to_visit (site_crawler 3 0) = [''http://d/'']
   \<and> extraction_fails broken_site (site_crawler 3 0) ''http://d/''
   \<and> visited (crawl_step broken_site (site_crawler 3 0)) = {|''http://d/''|}
   \<and> ''http://d/'' |\<in>| visited (crawl_step broken_site (site_crawler 3 0))"
  by code_simp

text \<open>
  C3, amended.  When the request for the dequeued URL \<open>u\<close> succeeds and the extraction
  of the text, the links or the title raises, the iteration appends no page record and
  nothing to the queue, but \<open>u\<close> has been put into \<open>visited\<close> and counts toward the
  page limit; the loop goes on from that state.
\<close>

theorem extraction_error_is_skipped:
  assumes "running s" and "to_visit s = u # rest" and "u |\<notin>| visited s"
    and "visited s = {||} \<or> 0 \<le> delay s"
    and "extraction_fails E s u"
  shows "visited (crawl_step E s) = finsert u (visited s)
    \<and> fcard (visited (crawl_step E s)) = Suc (fcard (visited s))
    \<and> pages_data (crawl_step E s) = pages_data s
    \<and> to_visit (crawl_step E s) = rest
    \<and> crawl_loop E s = crawl_loop E (crawl_step E s)"
proof -
  have "crawl_loop E s = crawl_loop E (crawl_step E s)"
    using assms(1) by (subst crawl_loop.simps) simp
  moreover have v: "visited (crawl_step E s) = finsert u (visited s)
    \<and> pages_data (crawl_step E s) = pages_data s
    \<and> to_visit (crawl_step E s) = rest"
    using assms(2-5)
    by (auto simp: crawl_step_def crawl_body_def extraction_fails_def Let_def
        split: sum.splits prod.splits option.splits)
  moreover from v assms(3) have "fcard (visited (crawl_step E s)) = Suc (fcard (visited s))"
    by (simp add: fcard_finsert_disjoint)
  ultimately show ?thesis by simp
qed

theorem extraction_error_is_skipped_witness:
  "running (site_crawler 3 0) \<and> to_visit (site_crawler 3 0) = [''http://d/'']
   \<and> ''http://d/'' |\<notin>| visited (site_crawler 3 0)
   \<and> extraction_fails broken_site (site_crawler 3 0) ''http://d/''
   \<and> fcard (visited (crawl_step broken_site (site_crawler 3 0))) = Suc 0
   \<and> pages_data (crawl_step broken_site (site_crawler 3 0)) = []
   \<and> to_visit (crawl_step broken_site (site_crawler 3 0)) = []"
proof -
  have h1: "running (site_crawler 3 0)" by code_simp
  have h2: "to_visit (site_crawler 3 0) = [''http://d/'']" by code_simp
  have h3: "''http://d/'' |\<notin>| visited (site_crawler 3 0)" by code_simp
  have h4: "visited (site_crawler 3 0) = {||} \<or> 0 \<le> delay (site_crawler 3 0)"
    by (simp add: site_crawler_def)
  have h5: "extraction_fails broken_site (site_crawler 3 0) ''http://d/''" by code_simp
  have v: "visited (site_crawler 3 0) = {||}" "pages_data (site_crawler 3 0) = []"
    by (simp_all add: site_crawler_def)
  from extraction_error_is_skipped [OF h1 h2 h3 h4 h5] h1 h2 h3 h5 v show ?thesis
    by (simp add: fcard_fempty fcard_finsert_if)
qed

section \<open>What an iteration does to the queue and to the trace\<close>

lemma enqueue_summary:
  "\<exists>new. set new \<subseteq> set links
     \<and> enqueue s links =
         s\<lparr>to_visit := to_visit s @ new, effects := effects s @ map Append new\<rparr>"
proof (induction links arbitrary: s)
  case Nil
  have "enqueue s [] = s\<lparr>to_visit := to_visit s @ [], effects := effects s @ map Append []\<rparr>"
    by simp
  then show ?case by (intro exI [of _ "[]"]) simp
next
  case (Cons l links)
  show ?case
  proof (cases "l |\<notin>| visited s \<and> l \<notin> set (to_visit s)")
    case True
    let ?s = "s\<lparr>to_visit := to_visit s @ [l], effects := effects s @ [Append l]\<rparr>"
    from Cons [of ?s] obtain new where
      n: "set new \<subseteq> set links"
         "enqueue ?s links =
            ?s\<lparr>to_visit := to_visit ?s @ new, effects := effects ?s @ map Append new\<rparr>"
      by blast
    from True n(2) have "enqueue s (l # links) =
        s\<lparr>to_visit := to_visit s @ (l # new), effects := effects s @ map Append (l # new)\<rparr>"
      by simp
    moreover from n(1) have "set (l # new) \<subseteq> set (l # links)" by auto
    ultimately show ?thesis by blast
  next
    case False
    from Cons [of s] obtain new where
      n: "set new \<subseteq> set links"
         "enqueue s links =
            s\<lparr>to_visit := to_visit s @ new, effects := effects s @ map Append new\<rparr>"
      by blast
    from False n(2) have "enqueue s (l # links) =
        s\<lparr>to_visit := to_visit s @ new, effects := effects s @ map Append new\<rparr>"
      by auto
    moreover from n(1) have "set new \<subseteq> set (l # links)" by auto
    ultimately show ?thesis by blast
  qed
qed

lemma collect_links_valid:
  "collect_links E dmn u hs = Some links \<Longrightarrow> l \<in> set links
     \<Longrightarrow> is_valid_url E dmn l = Some True"
proof (induction hs arbitrary: links)
  case Nil
  then show ?case by simp
next
  case (Cons h hs)
  then show ?case
    by (auto split: option.splits if_splits)
qed

lemma get_links_valid:
  "get_links E dmn u html = Some links \<Longrightarrow> l \<in> set links
     \<Longrightarrow> is_valid_url E dmn l = Some True"
  by (auto simp: get_links_def split: option.splits dest: collect_links_valid)

definition before_fetch :: "crawler \<Rightarrow> string \<Rightarrow> effect list" where
  \<comment> \<open>the calls of an iteration up to and including the request\<close>
  "before_fetch s u = (if visited s \<noteq> {||} then [Sleep (delay s)] else []) @ [Get u]"

lemma step_skip:
  assumes "to_visit s = u # rest" and "u |\<in>| visited s"
  shows "crawl_step E s = s\<lparr>to_visit := rest\<rparr>"
  using assms by (simp add: crawl_step_def)

lemma step_sleep_raises:
  assumes "to_visit s = u # rest" and "u |\<notin>| visited s"
    and "visited s \<noteq> {||}" and "delay s < 0"
  shows "crawl_step E s = s\<lparr>to_visit := rest\<rparr>"
  using assms by (simp add: crawl_step_def crawl_body_def)

lemma step_fetch_fails:
  assumes "to_visit s = u # rest" and "u |\<notin>| visited s"
    and "visited s = {||} \<or> 0 \<le> delay s" and "fetch_fails E s u"
  shows "crawl_step E s = s\<lparr>to_visit := rest, effects := effects s @ before_fetch s u\<rparr>"
  using assms
  by (auto simp: crawl_step_def crawl_body_def fetch_fails_def before_fetch_def Let_def
      split: sum.splits prod.splits)

lemma step_extraction_fails:
  assumes "to_visit s = u # rest" and "u |\<notin>| visited s"
    and "visited s = {||} \<or> 0 \<le> delay s" and "extraction_fails E s u"
  shows "crawl_step E s = s\<lparr>to_visit := rest, effects := effects s @ before_fetch s u,
    visited := finsert u (visited s)\<rparr>"
  using assms
  by (auto simp: crawl_step_def crawl_body_def extraction_fails_def before_fetch_def Let_def
      split: sum.splits prod.splits option.splits)

lemma step_success:
  assumes "to_visit s = u # rest" and "u |\<notin>| visited s"
    and "visited s = {||} \<or> 0 \<le> delay s"
    and "requests_get E (requests s) u = Inr (status, html)"
    and "\<not> raise_for_status status"
    and "extract_text E html = Some text"
    and "get_links E (domain s) u html = Some links"
    and "page_title E html = Some t"
  shows "crawl_step E s =
    enqueue (s\<lparr>to_visit := rest, effects := effects s @ before_fetch s u,
        visited := finsert u (visited s),
        pages_data := pages_data s @
          [\<lparr>url = u, title = t, text_length = length text, links_found = length links\<rparr>]\<rparr>)
      links"
  using assms
  by (auto simp: crawl_step_def crawl_body_def before_fetch_def Let_def)

lemma step_summary:
  assumes "to_visit s = u # rest"
  shows "\<exists>pre new vis pages.
      crawl_step E s = s\<lparr>to_visit := rest @ new,
        effects := effects s @ pre @ map Append new, visited := vis, pages_data := pages\<rparr>
    \<and> (pre = [] \<and> vis = visited s \<and> new = [] \<and> visited s \<noteq> {||}
          \<and> (u |\<in>| visited s \<or> delay s < 0)
       \<or> u |\<notin>| visited s \<and> pre = before_fetch s u
          \<and> (vis = visited s \<and> new = [] \<or> vis = finsert u (visited s)))
    \<and> (\<forall>l\<in>set new. is_valid_url E (domain s) l = Some True)"
proof -
  consider (skip) "u |\<in>| visited s"
    | (sleep) "u |\<notin>| visited s" "visited s \<noteq> {||}" "delay s < 0"
    | (fetch) "u |\<notin>| visited s" "visited s = {||} \<or> 0 \<le> delay s" "fetch_fails E s u"
    | (raised) "u |\<notin>| visited s" "visited s = {||} \<or> 0 \<le> delay s"
        "extraction_fails E s u"
    | (ok) "u |\<notin>| visited s" "visited s = {||} \<or> 0 \<le> delay s"
        "\<not> fetch_fails E s u" "\<not> extraction_fails E s u"
    by fastforce
  then show ?thesis
  proof cases
    case skip
    then have "visited s \<noteq> {||}" by auto
    with step_skip [OF assms skip, of E] skip show ?thesis
      by (intro exI [of _ "[]"] exI [of _ "visited s"] exI [of _ "pages_data s"] conjI)
        simp_all
  next
    case sleep
    with step_sleep_raises [OF assms sleep, of E] show ?thesis
      by (intro exI [of _ "[]"] exI [of _ "visited s"] exI [of _ "pages_data s"] conjI)
        simp_all
  next
    case fetch
    with step_fetch_fails [OF assms fetch] show ?thesis
      by (intro exI [of _ "before_fetch s u"] exI [of _ "[]"] exI [of _ "visited s"]
          exI [of _ "pages_data s"] conjI) simp_all
  next
    case raised
    with step_extraction_fails [OF assms raised] show ?thesis
      by (intro exI [of _ "before_fetch s u"] exI [of _ "[]"]
          exI [of _ "finsert u (visited s)"] exI [of _ "pages_data s"] conjI) simp_all
  next
    case ok
    from ok(3,4) obtain status html tx links t where
      r: "requests_get E (requests s) u = Inr (status, html)" "\<not> raise_for_status status"
         "extract_text E html = Some tx" "get_links E (domain s) u html = Some links"
         "page_title E html = Some t"
      by (auto simp: fetch_fails_def extraction_fails_def split: sum.splits prod.splits)
    let ?pages = "pages_data s @
      [\<lparr>url = u, title = t, text_length = length tx, links_found = length links\<rparr>]"
    let ?s = "s\<lparr>to_visit := rest, effects := effects s @ before_fetch s u,
      visited := finsert u (visited s), pages_data := ?pages\<rparr>"
    from enqueue_summary [of links ?s] obtain new where
      n: "set new \<subseteq> set links"
         "enqueue ?s links =
            ?s\<lparr>to_visit := to_visit ?s @ new, effects := effects ?s @ map Append new\<rparr>"
      by blast
    from step_success [OF assms ok(1,2) r] n(2)
    have "crawl_step E s = s\<lparr>to_visit := rest @ new,
        effects := effects s @ before_fetch s u @ map Append new,
        visited := finsert u (visited s), pages_data := ?pages\<rparr>"
      by simp
    moreover from n(1) r(4) have "\<forall>l\<in>set new. is_valid_url E (domain s) l = Some True"
      by (auto dest: get_links_valid)
    ultimately show ?thesis using ok(1)
      by (intro exI [of _ "before_fetch s u"] exI [of _ new]
          exI [of _ "finsert u (visited s)"] exI [of _ ?pages] conjI) simp_all
  qed
qed

lemma crawl_states_invariant:
  assumes "P s" and "\<And>s. P s \<Longrightarrow> running s \<Longrightarrow> P (crawl_step E s)"
    and "t \<in> set (crawl_states E s)"
  shows "P t"
  using assms
proof (induction E s rule: crawl_states.induct)
  case (1 E s)
  show ?case
  proof (cases "running s")
    case False
    with 1(4) have "t = s" by (subst (asm) crawl_states.simps) simp
    with 1(2) show ?thesis by simp
  next
    case True
    from 1(4) True have "t = s \<or> t \<in> set (crawl_states E (crawl_step E s))"
      by (subst (asm) crawl_states.simps) simp
    then show ?thesis
    proof
      assume "t = s"
      with 1(2) show ?thesis by simp
    next
      assume t: "t \<in> set (crawl_states E (crawl_step E s))"
      from 1(3) [OF 1(2) True] have "P (crawl_step E s)" .
      from 1(1) [OF True this 1(3) t] show ?thesis .
    qed
  qed
qed

section \<open>The scope of the queue\<close>

fun appends :: "effect list \<Rightarrow> string list" where
  "appends [] = []"
| "appends (Append u # es) = u # appends es"
| "appends (e # es) = appends es"

definition bare_crawler :: crawler where
  \<comment> \<open>\<open>SimpleCrawler('example.com', 3, 0)\<close>: the start URL has no scheme\<close>
  "bare_crawler =
     \<lparr>start_url = ''example.com'', max_pages = 3, delay = 0, visited = {||},
      to_visit = [''example.com''], domain = [], pages_data = [], effects = []\<rparr>"

lemma appends_append [simp]: "appends (xs @ ys) = appends xs @ appends ys"
  by (induction xs rule: appends.induct) simp_all

lemma appends_map_Append [simp]: "appends (map Append new) = new"
  by (induction new) simp_all

lemma appends_before_fetch [simp]: "appends (before_fetch s u) = []"
  by (simp add: before_fetch_def)

lemma crawl_loop_in_states: "crawl_loop E s \<in> set (crawl_states E s)"
proof -
  obtain pre where "crawl_states E s = pre @ [crawl_loop E s]"
    using crawl_states_running by blast
  then show ?thesis by simp
qed

lemma step_keeps_scope:
  assumes "domain s = dmn"
    and "\<forall>l\<in>set (appends (effects s)). is_valid_url E dmn l = Some True"
    and "set (to_visit s) \<subseteq> insert u0 (set (appends (effects s)))"
    and "running s"
  shows "domain (crawl_step E s) = dmn
    \<and> (\<forall>l\<in>set (appends (effects (crawl_step E s))). is_valid_url E dmn l = Some True)
    \<and> set (to_visit (crawl_step E s)) \<subseteq> insert u0 (set (appends (effects (crawl_step E s))))"
proof -
  from assms(4) obtain u rest where q: "to_visit s = u # rest"
    by (cases "to_visit s") (auto simp: running_def)
  from step_summary [OF q, of E] obtain pre new vis pages where
    st: "crawl_step E s = s\<lparr>to_visit := rest @ new,
           effects := effects s @ pre @ map Append new, visited := vis, pages_data := pages\<rparr>"
    and pre: "pre = [] \<or> pre = before_fetch s u"
    and new: "\<forall>l\<in>set new. is_valid_url E (domain s) l = Some True"
    by blast
  from pre have a: "appends (effects (crawl_step E s)) = appends (effects s) @ new"
    by (auto simp: st)
  from st have t: "to_visit (crawl_step E s) = rest @ new" and d: "domain (crawl_step E s) = domain s"
    by simp_all
  from assms(1-3) q a t d new show ?thesis by auto
qed

text \<open>
  C5, as stated, fails for the start URL: the constructor puts it into the queue without
  any check, and a start URL without a scheme is not in scope of the domain that the
  constructor derives from it.
\<close>

theorem start_url_scope_counterexample:
  "init site ''example.com'' 3 0 = Some bare_crawler
   \<and> to_visit bare_crawler = [''example.com'']
   \<and> is_valid_url site (domain bare_crawler) ''example.com'' = Some False"
  by code_simp

text \<open>
  C5, amended.  In every state at the head of the loop of a crawler built by the
  constructor, and so in the state the loop ends in, every URL that the loop has
  appended to the queue was in scope of the crawler's domain, and the queue holds only
  the start URL and appended URLs.  The start URL itself is queued unchecked.
\<close>

theorem appended_links_in_scope:
  assumes "init E u n d = Some s0" and "s \<in> set (crawl_states E s0)"
  shows "(\<forall>l \<in> set (appends (effects s)). is_valid_url E (domain s0) l = Some True)
    \<and> set (to_visit s) \<subseteq> insert u (set (appends (effects s)))
    \<and> crawl_loop E s0 \<in> set (crawl_states E s0)"
proof -
  let ?P = "\<lambda>s. domain s = domain s0
    \<and> (\<forall>l\<in>set (appends (effects s)). is_valid_url E (domain s0) l = Some True)
    \<and> set (to_visit s) \<subseteq> insert u (set (appends (effects s)))"
  from assms(1) have "?P s0"
    by (auto simp: init_def split: option.splits)
  moreover have "?P (crawl_step E s)" if "?P s" "running s" for s
    using step_keeps_scope [of s "domain s0" E u] that by blast
  ultimately have "?P s"
    using assms(2) by (rule crawl_states_invariant [where P = ?P])
  then show ?thesis using crawl_loop_in_states by blast
qed

theorem appended_links_in_scope_witness:
  "init site ''http://d/'' 3 0 = Some (site_crawler 3 0)
   \<and> crawl_loop site (site_crawler 3 0) \<in> set (crawl_states site (site_crawler 3 0))
   \<and> appends (effects (crawl_loop site (site_crawler 3 0))) =
       [''http://d/a'', ''http://d/b'', ''http://d/c'']
   \<and> is_valid_url site (domain (site_crawler 3 0)) ''http://d/a'' = Some True
   \<and> is_valid_url site (domain (site_crawler 3 0)) ''http://d/b'' = Some True
   \<and> is_valid_url site (domain (site_crawler 3 0)) ''http://d/c'' = Some True"
proof -
  have h: "init site ''http://d/'' 3 0 = Some (site_crawler 3 0)" by (rule init_site)
  have m: "crawl_loop site (site_crawler 3 0) \<in> set (crawl_states site (site_crawler 3 0))"
    by (rule crawl_loop_in_states)
  have a: "appends (effects (crawl_loop site (site_crawler 3 0))) =
      [''http://d/a'', ''http://d/b'', ''http://d/c'']"
    by code_simp
  from appended_links_in_scope [OF h m] a h m show ?thesis by simp
qed

section \<open>Pacing\<close>

fun is_append :: "effect \<Rightarrow> bool" where
  "is_append (Append u) = True"
| "is_append e = False"

definition calls :: "effect list \<Rightarrow> effect list" where
  \<comment> \<open>the calls of \<open>time.sleep\<close> and \<open>requests.get\<close>, in the order they were made\<close>
  "calls es = filter (\<lambda>e. \<not> is_append e) es"

text \<open>
  A paced sequence of calls: a first request that no sleep precedes, and then each
  request right after a sleep of the given delay.
\<close>

fun paced_after :: "int \<Rightarrow> effect list \<Rightarrow> bool" where
  "paced_after d [] = True"
| "paced_after d (Sleep x # Get u # es) = (x = d \<and> paced_after d es)"
| "paced_after d es = False"

fun paced :: "int \<Rightarrow> effect list \<Rightarrow> bool" where
  "paced d [] = True"
| "paced d (Get u # es) = paced_after d es"
| "paced d es = False"

lemma calls_Nil [simp]: "calls [] = []"
  by (simp add: calls_def)

lemma calls_append [simp]: "calls (xs @ ys) = calls xs @ calls ys"
  by (simp add: calls_def)

lemma calls_map_Append [simp]: "calls (map Append new) = []"
  by (induction new) (simp_all add: calls_def)

lemma calls_before_fetch [simp]: "calls (before_fetch s u) = before_fetch s u"
  by (simp add: before_fetch_def calls_def)

lemma paced_after_snoc:
  "paced_after d es \<Longrightarrow> paced_after d (es @ [Sleep d, Get u])"
  by (induction d es rule: paced_after.induct) simp_all

lemma paced_snoc:
  "paced d es \<Longrightarrow> es \<noteq> [] \<Longrightarrow> paced d (es @ [Sleep d, Get u])"
  by (induction d es rule: paced.induct) (simp_all add: paced_after_snoc)

definition pacing_invariant :: "int \<Rightarrow> crawler \<Rightarrow> bool" where
  "pacing_invariant d s =
     (delay s = d \<and> paced d (calls (effects s))
      \<and> (if visited s = {||}
         then calls (effects s) = [] \<and> length (to_visit s) \<le> 1 \<or> to_visit s = []
         else calls (effects s) \<noteq> []))"

lemma step_calls:
  assumes "pacing_invariant d s" and "running s"
  shows "pacing_invariant d (crawl_step E s)
    \<and> (calls (effects (crawl_step E s)) = calls (effects s)
       \<or> calls (effects (crawl_step E s)) = calls (effects s) @ [Get (hd (to_visit s))]
          \<and> visited s = {||} \<and> calls (effects s) = []
       \<or> calls (effects (crawl_step E s)) = calls (effects s) @ [Sleep d, Get (hd (to_visit s))]
          \<and> visited s \<noteq> {||} \<and> calls (effects s) \<noteq> [])"
proof -
  from assms(2) obtain u rest where q: "to_visit s = u # rest"
    by (cases "to_visit s") (auto simp: running_def)
  from step_summary [OF q, of E] obtain pre new vis pages where
    st: "crawl_step E s = s\<lparr>to_visit := rest @ new,
           effects := effects s @ pre @ map Append new, visited := vis, pages_data := pages\<rparr>"
    and cases: "pre = [] \<and> vis = visited s \<and> new = [] \<and> visited s \<noteq> {||}
       \<or> u |\<notin>| visited s \<and> pre = before_fetch s u
          \<and> (vis = visited s \<and> new = [] \<or> vis = finsert u (visited s))"
    by blast
  from st have c: "calls (effects (crawl_step E s)) = calls (effects s) @ calls pre"
    and v: "visited (crawl_step E s) = vis" and t: "to_visit (crawl_step E s) = rest @ new"
    and d: "delay (crawl_step E s) = delay s"
    by simp_all
  from assms(1) have inv: "delay s = d" "paced d (calls (effects s))"
    "visited s = {||} \<Longrightarrow> calls (effects s) = [] \<and> rest = []"
    "visited s \<noteq> {||} \<Longrightarrow> calls (effects s) \<noteq> []"
    using q by (auto simp: pacing_invariant_def split: if_splits)
  from cases show ?thesis
  proof
    assume a: "pre = [] \<and> vis = visited s \<and> new = [] \<and> visited s \<noteq> {||}"
    with c v t d inv show ?thesis by (simp add: pacing_invariant_def)
  next
    assume b: "u |\<notin>| visited s \<and> pre = before_fetch s u
      \<and> (vis = visited s \<and> new = [] \<or> vis = finsert u (visited s))"
    show ?thesis
    proof (cases "visited s = {||}")
      case True
      with b have p: "pre = [Get u]" by (simp add: before_fetch_def)
      from inv(3) [OF True] p c have c': "calls (effects (crawl_step E s)) = [Get u]"
        by (simp add: calls_def)
      from b True inv(3) [OF True] c' v t d inv(1) q show ?thesis
        by (auto simp: pacing_invariant_def)
    next
      case False
      with b inv(1) have p: "pre = [Sleep d, Get u]" by (simp add: before_fetch_def)
      with c have c': "calls (effects (crawl_step E s)) = calls (effects s) @ [Sleep d, Get u]"
        by (simp add: calls_def)
      from b False have "vis \<noteq> {||}" by auto
      with c' v d inv(1) paced_snoc [OF inv(2) inv(4) [OF False], of u] False inv(4) [OF False] q
      show ?thesis by (simp add: pacing_invariant_def)
    qed
  qed
qed

text \<open>
  C9.  In a run of a crawler built by the constructor with delay \<open>d\<close>, an iteration that
  sends a request calls \<open>time.sleep(d)\<close> right before it exactly when \<open>visited\<close> is not
  empty, and \<open>visited\<close> is empty at a request only when no request has been sent before:
  the calls made up to any state at the head of the loop are a first request without a
  sleep and then each request right after a sleep.
\<close>

theorem delay_before_every_fetch_but_the_first:
  assumes "init E u n d = Some s0" and "s \<in> set (crawl_states E s0)"
  shows "paced d (calls (effects s))
    \<and> (running s \<longrightarrow>
         calls (effects (crawl_step E s)) = calls (effects s)
         \<or> calls (effects (crawl_step E s)) = calls (effects s) @ [Get (hd (to_visit s))]
            \<and> visited s = {||} \<and> calls (effects s) = []
         \<or> calls (effects (crawl_step E s)) = calls (effects s) @ [Sleep d, Get (hd (to_visit s))]
            \<and> visited s \<noteq> {||} \<and> calls (effects s) \<noteq> [])"
proof -
  from assms(1) have "pacing_invariant d s0"
    by (auto simp: init_def pacing_invariant_def calls_def split: option.splits)
  moreover have "pacing_invariant d (crawl_step E s)"
    if "pacing_invariant d s" "running s" for s
    using step_calls [OF that] by blast
  ultimately have "pacing_invariant d s"
    using assms(2) by (rule crawl_states_invariant [where P = "pacing_invariant d"])
  then show ?thesis
    using step_calls [of d s E] by (auto simp: pacing_invariant_def)
qed

theorem delay_before_every_fetch_but_the_first_witness:
  "init site ''http://d/'' 10 1 = Some (site_crawler 10 1)
   \<and> crawl_loop site (site_crawler 10 1) \<in> set (crawl_states site (site_crawler 10 1))
   \<and> calls (effects (crawl_loop site (site_crawler 10 1))) =
       [Get ''http://d/'', Sleep 1, Get ''http://d/a'', Sleep 1, Get ''http://d/b'',
        Sleep 1, Get ''http://d/c'']
   \<and> paced 1 (calls (effects (crawl_loop site (site_crawler 10 1))))"
proof -
  have h: "init site ''http://d/'' 10 1 = Some (site_crawler 10 1)" by (rule init_site)
  have m: "crawl_loop site (site_crawler 10 1) \<in> set (crawl_states site (site_crawler 10 1))"
    by (rule crawl_loop_in_states)
  have c: "calls (effects (crawl_loop site (site_crawler 10 1))) =
       [Get ''http://d/'', Sleep 1, Get ''http://d/a'', Sleep 1, Get ''http://d/b'',
        Sleep 1, Get ''http://d/c'']"
    by code_simp
  from delay_before_every_fetch_but_the_first [OF h m] have
    "paced 1 (calls (effects (crawl_loop site (site_crawler 10 1))))" by blast
  with h m c show ?thesis by blast
qed

section \<open>Breadth-first order\<close>

fun gets :: "effect list \<Rightarrow> string list" where
  \<comment> \<open>the URLs requested, in the order of the requests\<close>
  "gets [] = []"
| "gets (Get u # es) = u # gets es"
| "gets (e # es) = gets es"


lemma gets_append [simp]: "gets (xs @ ys) = gets xs @ gets ys"
  by (induction xs rule: gets.induct) simp_all

lemma gets_map_Append [simp]: "gets (map Append new) = []"
  by (induction new) simp_all

lemma gets_before_fetch [simp]: "gets (before_fetch s u) = [u]"
  by (simp add: before_fetch_def)






section \<open>The links of a page\<close>

definition twice_html :: string where
  "twice_html = ''<a href=http://d/a>one</a><a href=http://d/a>two</a>''"

definition twice_site :: env where
  \<comment> \<open>a page that refers to the same URL twice\<close>
  "twice_site = site_env [(''http://d/'', Inr (200, twice_html))]
     [(twice_html,
       [Tag ''a'' [(''href'', ''http://d/a'')] [NavigableString ''one''],
        Tag ''a'' [(''href'', ''http://d/a'')] [NavigableString ''two'']]),
      ([], [])]"

lemma collect_links_iff:
  "collect_links E dmn u hs = Some links \<longleftrightarrow>
     (\<exists>rs. map (urljoin E u) hs = map Some rs
        \<and> (\<forall>a\<in>set rs. is_valid_url E dmn a \<noteq> None)
        \<and> links = filter (\<lambda>a. is_valid_url E dmn a = Some True) rs)"
proof (induction hs arbitrary: links)
  case Nil
  then show ?case by auto
next
  case (Cons h hs)
  show ?case
  proof (cases "urljoin E u h")
    case None
    then show ?thesis by (auto simp: Cons_eq_map_conv)
  next
    case (Some a)
    show ?thesis
    proof (cases "is_valid_url E dmn a")
      case None
      with Some show ?thesis by (auto simp: Cons_eq_map_conv)
    next
      case ok: (Some b)
      show ?thesis
      proof (cases "collect_links E dmn u hs")
        case None
        have no: "\<not> (map (urljoin E u) hs = map Some rs
            \<and> (\<forall>a\<in>set rs. is_valid_url E dmn a \<noteq> None))" for rs
        proof
          assume "map (urljoin E u) hs = map Some rs
            \<and> (\<forall>a\<in>set rs. is_valid_url E dmn a \<noteq> None)"
          then have "\<exists>rs'. map (urljoin E u) hs = map Some rs'
            \<and> (\<forall>a\<in>set rs'. is_valid_url E dmn a \<noteq> None)
            \<and> filter (\<lambda>a. is_valid_url E dmn a = Some True) rs =
              filter (\<lambda>a. is_valid_url E dmn a = Some True) rs'"
            by (intro exI [of _ rs]) simp
          with Cons [of "filter (\<lambda>a. is_valid_url E dmn a = Some True) rs"]
          have "collect_links E dmn u hs =
            Some (filter (\<lambda>a. is_valid_url E dmn a = Some True) rs)"
            by (rule iffD2)
          with None show False by simp
        qed
        have "\<not> (map (urljoin E u) (h # hs) = map Some rs
            \<and> (\<forall>a\<in>set rs. is_valid_url E dmn a \<noteq> None))" for rs
        proof
          assume r: "map (urljoin E u) (h # hs) = map Some rs
            \<and> (\<forall>a\<in>set rs. is_valid_url E dmn a \<noteq> None)"
          then obtain x rs' where "rs = x # rs'" "map (urljoin E u) hs = map Some rs'"
            by (auto simp: Cons_eq_map_conv)
          with r no [of rs'] show False by simp
        qed
        with Some ok None show ?thesis by auto
      next
        case tl: (Some ls)
        from Cons [of ls] tl obtain rs where
          rs: "map (urljoin E u) hs = map Some rs"
              "\<forall>a\<in>set rs. is_valid_url E dmn a \<noteq> None"
              "ls = filter (\<lambda>a. is_valid_url E dmn a = Some True) rs"
          by auto
        from rs(1) have uniq: "rs' = rs" if "map (urljoin E u) hs = map Some rs'" for rs'
          using that by (metis list.inj_map_strong option.inject)
        show ?thesis
        proof
          assume "collect_links E dmn u (h # hs) = Some links"
          with Some ok tl have l: "links = (if b then a # ls else ls)" by simp
          from Some rs(1) have "map (urljoin E u) (h # hs) = map Some (a # rs)" by simp
          moreover from ok rs(2) have "\<forall>x\<in>set (a # rs). is_valid_url E dmn x \<noteq> None"
            by simp
          moreover from l ok rs(3)
          have "links = filter (\<lambda>a. is_valid_url E dmn a = Some True) (a # rs)" by simp
          ultimately show "\<exists>rs. map (urljoin E u) (h # hs) = map Some rs
            \<and> (\<forall>a\<in>set rs. is_valid_url E dmn a \<noteq> None)
            \<and> links = filter (\<lambda>a. is_valid_url E dmn a = Some True) rs"
            by blast
        next
          assume "\<exists>rs. map (urljoin E u) (h # hs) = map Some rs
            \<and> (\<forall>a\<in>set rs. is_valid_url E dmn a \<noteq> None)
            \<and> links = filter (\<lambda>a. is_valid_url E dmn a = Some True) rs"
          then obtain rs' where
            r: "map (urljoin E u) (h # hs) = map Some rs'"
               "links = filter (\<lambda>a. is_valid_url E dmn a = Some True) rs'"
            by blast
          from r(1) Some obtain rs'' where "rs' = a # rs''" "map (urljoin E u) hs = map Some rs''"
            by (auto simp: Cons_eq_map_conv)
          with uniq have "rs' = a # rs" by simp
          with r(2) rs(3) Some ok tl show "collect_links E dmn u (h # hs) = Some links"
            by simp
        qed
      qed
    qed
  qed
qed

text \<open>
  C7, as stated, fails: \<open>get_links\<close> returns a list, and a page that refers to the same
  URL twice yields that URL twice.
\<close>

theorem duplicate_links_counterexample:
  "get_links twice_site ''d'' ''http://d/'' twice_html = Some [''http://d/a'', ''http://d/a'']
   \<and> \<not> distinct [''http://d/a'', ''http://d/a'']"
  by code_simp

text \<open>
  C7, amended.  \<open>get_links\<close> returns a list, in document order and with repetitions:
  it returns \<open>links\<close> exactly when the page parses, every \<open>href\<close> value of an \<open>a\<close> tag
  resolves against the page URL, every resolved URL can be classified, and \<open>links\<close> are
  the resolved URLs that are in scope, one for each such tag.
\<close>

theorem get_links_resolves_and_filters:
  "get_links E dmn u html = Some links \<longleftrightarrow>
     (\<exists>doc rs. BeautifulSoup E html = Some doc
        \<and> map (urljoin E u) (hrefs doc) = map Some rs
        \<and> (\<forall>a\<in>set rs. is_valid_url E dmn a \<noteq> None)
        \<and> links = filter (\<lambda>a. is_valid_url E dmn a = Some True) rs)"
  by (cases "BeautifulSoup E html") (simp_all add: get_links_def collect_links_iff)

theorem get_links_resolves_and_filters_witness:
  "get_links site ''d'' ''http://d/'' home_html = Some [''http://d/a'', ''http://d/b'']
   \<and> (\<exists>doc rs. BeautifulSoup site home_html = Some doc
        \<and> map (urljoin site ''http://d/'') (hrefs doc) = map Some rs
        \<and> [''http://d/a'', ''http://d/b''] =
            filter (\<lambda>a. is_valid_url site ''d'' a = Some True) rs)"
proof -
  have g: "get_links site ''d'' ''http://d/'' home_html = Some [''http://d/a'', ''http://d/b'']"
    by code_simp
  with get_links_resolves_and_filters
    [of site "''d''" "''http://d/''" home_html "[''http://d/a'', ''http://d/b'']"]
  show ?thesis by blast
qed

section \<open>The title of a page record\<close>

definition untitled_html :: string where
  "untitled_html = ''<html><head><title></title></head><body></body></html>''"

definition untitled_site :: env where
  \<comment> \<open>a page whose title element is empty\<close>
  "untitled_site = site_env [(''http://d/'', Inr (200, untitled_html))]
     [(untitled_html,
       [Tag ''html'' [] [Tag ''head'' [] [Tag ''title'' [] []], Tag ''body'' [] []]])]"

lemma title_absent:
  assumes "concat (map (find_tags ''title'') doc) = []"
  shows "soup_title doc = Some ''No title''"
  unfolding soup_title_def title_tag_def assms by simp

lemma title_single_string:
  assumes "concat (map (find_tags ''title'') doc) = Tag n a [NavigableString t] # ts"
  shows "soup_title doc = Some t"
  unfolding soup_title_def title_tag_def assms by simp

text \<open>
  C8 at a page whose title element is empty: the element is present, \<open>.string\<close> of a tag
  without children is \<open>None\<close>, and the page record of the crawl carries \<open>None\<close>, which is
  neither the text of the title element nor a string.
\<close>

theorem empty_title_is_none:
  "page_title untitled_site untitled_html = Some None
   \<and> map title (crawl untitled_site (site_crawler 1 0)) = [None]"
  by code_simp

section \<open>The text of a page\<close>

text \<open>
  Two adjacent spaces somewhere in a string; a string that is not empty and neither
  starts nor ends with a character that \<open>strip\<close> removes; and a document in which the
  children of every \<open>script\<close> and \<open>style\<close> tag are replaced by anything else.
\<close>

fun double_space :: "string \<Rightarrow> bool" where
  "double_space (c # d # s) = (c = CHR '' '' \<and> d = CHR '' '' \<or> double_space (d # s))"
| "double_space s = False"

definition trimmed :: "string \<Rightarrow> bool" where
  "trimmed s = (s \<noteq> [] \<and> \<not> is_space (hd s) \<and> \<not> is_space (last s))"

fun replace_hidden :: "(node list \<Rightarrow> node list) \<Rightarrow> node \<Rightarrow> node" where
  "replace_hidden g (Tag n a cs) =
     (if n \<in> set [''script'', ''style''] then Tag n a (g cs)
      else Tag n a (map (replace_hidden g) cs))"
| "replace_hidden g x = x"

lemma decompose_replace_hidden:
  "decompose [''script'', ''style''] (replace_hidden g x) = decompose [''script'', ''style''] x"
  by (induction g x rule: replace_hidden.induct) (auto intro: arg_cong [where f = concat])

lemma decompose_all_replace_hidden:
  "decompose_all [''script'', ''style''] (map (replace_hidden g) doc) =
   decompose_all [''script'', ''style''] doc"
  by (simp add: decompose_all_def decompose_replace_hidden comp_def)

lemma is_space_space [simp]: "is_space (CHR '' '')"
  by (simp add: is_space_def)

lemma not_linebreak_space [simp]: "\<not> is_linebreak (CHR '' '')"
  by (simp add: is_linebreak_def)

lemma double_space_Cons:
  "double_space (c # s) = (c = CHR '' '' \<and> s \<noteq> [] \<and> hd s = CHR '' '' \<or> double_space s)"
  by (cases s) auto

lemma double_space_append:
  "double_space (xs @ ys) \<longleftrightarrow>
     double_space xs \<or> double_space ys
     \<or> (xs \<noteq> [] \<and> last xs = CHR '' '' \<and> ys \<noteq> [] \<and> hd ys = CHR '' '')"
proof (induction xs)
  case Nil
  then show ?case by simp
next
  case (Cons x xs)
  show ?case
  proof (cases xs)
    case Nil
    then show ?thesis by (auto simp: double_space_Cons)
  next
    case (Cons y zs)
    with Cons.IH show ?thesis by (auto simp: double_space_Cons)
  qed
qed

lemma double_space_rev: "double_space (rev s) = double_space s"
proof (induction s)
  case Nil
  then show ?case by simp
next
  case (Cons c s)
  then show ?case
    by (auto simp: double_space_append double_space_Cons last_rev hd_rev)
qed

lemma double_space_dropWhile: "double_space (dropWhile P s) \<Longrightarrow> double_space s"
  using double_space_append [of "takeWhile P s" "dropWhile P s"] by simp

lemma double_space_strip: "double_space (strip s) \<Longrightarrow> double_space s"
  unfolding strip_def
  by (auto simp: double_space_rev dest!: double_space_dropWhile)

lemma split_from_no_double_space:
  assumes "\<not> double_space cur"
    and "cur \<noteq> [] \<Longrightarrow> hd cur = CHR '' '' \<Longrightarrow> s \<noteq> [] \<and> hd s \<noteq> CHR '' ''"
    and "c \<in> set (split_from cur s)"
  shows "\<not> double_space c"
  using assms
proof (induction cur s rule: split_from.induct)
  case (1 cur)
  then show ?case by (simp add: double_space_rev)
next
  case (2 cur x)
  from 2(3) have "c = rev (x # cur)" by simp
  moreover from 2(1,2) have "\<not> double_space (x # cur)"
    by (auto simp: double_space_Cons)
  ultimately show ?case using double_space_rev [of "x # cur"] by simp
next
  case (3 cur x y s)
  show ?case
  proof (cases "x = CHR '' '' \<and> y = CHR '' ''")
    case True
    with 3(4,5) have "c = rev cur \<or> c \<in> set (split_from [] s)" by simp
    then show ?thesis
    proof
      assume "c = rev cur"
      with 3(3) show ?thesis by (simp add: double_space_rev)
    next
      assume "c \<in> set (split_from [] s)"
      with 3(1) [OF True] show ?thesis by simp
    qed
  next
    case False
    with 3(5) have m: "c \<in> set (split_from (x # cur) (y # s))" by auto
    from 3(3,4) have a: "\<not> double_space (x # cur)"
      by (auto simp: double_space_Cons)
    from False have b: "x # cur \<noteq> [] \<Longrightarrow> hd (x # cur) = CHR '' ''
        \<Longrightarrow> y # s \<noteq> [] \<and> hd (y # s) \<noteq> CHR '' ''"
      by simp
    from 3(2) [OF False a b m] show ?thesis .
  qed
qed


lemma split_two_spaces_no_double_space:
  "c \<in> set (split_two_spaces s) \<Longrightarrow> \<not> double_space c"
  unfolding split_two_spaces_def
  by (rule split_from_no_double_space [of "[]" s]) simp_all

lemma join_trimmed:
  assumes "list_all trimmed ts" and "list_all (\<lambda>t. \<not> double_space t) ts" and "ts \<noteq> []"
  shows "trimmed (join '' '' ts) \<and> \<not> double_space (join '' '' ts)"
  using assms
proof (induction ts)
  case Nil
  then show ?case by simp
next
  case (Cons t ts)
  show ?case
  proof (cases ts)
    case Nil
    with Cons.prems show ?thesis by simp
  next
    case c: (Cons y ys)
    from Cons.prems c have ih: "trimmed (join '' '' ts)" "\<not> double_space (join '' '' ts)"
      using Cons.IH by simp_all
    from Cons.prems have t: "trimmed t" "\<not> double_space t" by simp_all
    have j: "join '' '' (t # ts) = t @ CHR '' '' # join '' '' ts"
      using c by simp
    from t(1) ih(1) have sp: "last t \<noteq> CHR '' ''" "hd (join '' '' ts) \<noteq> CHR '' ''"
      "t \<noteq> []" "join '' '' ts \<noteq> []"
      by (auto simp: trimmed_def)
    from t ih sp have "\<not> double_space (join '' '' (t # ts))"
      unfolding j by (simp add: double_space_append double_space_Cons)
    moreover from t(1) ih(1) have "trimmed (join '' '' (t # ts))"
      unfolding j by (simp add: trimmed_def)
    ultimately show ?thesis by simp
  qed
qed

lemma strip_trimmed: "strip s \<noteq> [] \<Longrightarrow> trimmed (strip s)"
proof -
  assume ne: "strip s \<noteq> []"
  let ?y = "dropWhile is_space s"
  let ?z = "dropWhile is_space (rev ?y)"
  from ne have z: "?z \<noteq> []" by (simp add: strip_def)
  have y: "?y \<noteq> []"
  proof
    assume "?y = []"
    then have "?z = []" by (simp only: rev.simps dropWhile.simps)
    with z show False by simp
  qed
  have "\<not> is_space (hd ?z)" using z by (rule hd_dropWhile)
  then have l: "\<not> is_space (last (strip s))" using z by (simp add: strip_def last_rev)
  have "rev ?y = takeWhile is_space (rev ?y) @ ?z" by simp
  then have "last (rev ?y) = last ?z" using z by (metis last_appendR)
  then have "last ?z = hd ?y" using y by (simp add: last_rev)
  moreover have "\<not> is_space (hd ?y)" using y by (rule hd_dropWhile)
  ultimately have "\<not> is_space (hd (strip s))" using z by (simp add: strip_def hd_rev)
  with l ne show ?thesis by (simp add: trimmed_def)
qed

lemma strip_of_trimmed: "trimmed s \<Longrightarrow> strip s = s"
proof -
  assume t: "trimmed s"
  then have "dropWhile is_space s = s" by (cases s) (auto simp: trimmed_def)
  moreover from t have "dropWhile is_space (rev s) = rev s"
    by (cases "rev s") (auto simp: trimmed_def hd_rev)
  ultimately show ?thesis by (simp add: strip_def)
qed


lemma splitlines_from_no_linebreak:
  assumes "\<forall>c\<in>set cur. \<not> is_linebreak c" and "l \<in> set (splitlines_from cur s)"
  shows "\<forall>c\<in>set l. \<not> is_linebreak c"
  using assms
proof (induction cur s rule: splitlines_from.induct)
  case (1 cur)
  then show ?case by (cases "cur = []") simp_all
next
  case (2 cur c)
  then show ?case by (cases "is_linebreak c") simp_all
next
  case (3 cur c d s)
  let ?crlf = "c = CHR 0x0D \<and> d = CHR 0x0A"
  consider (crlf) ?crlf | (br) "\<not> ?crlf" "is_linebreak c"
    | (other) "\<not> ?crlf" "\<not> is_linebreak c"
    by blast
  then show ?case
  proof cases
    case crlf
    with 3(5) have "l = rev cur \<or> l \<in> set (splitlines_from [] s)" by simp
    with 3(1) [OF crlf] 3(4) show ?thesis by auto
  next
    case br
    with 3(5) have "l = rev cur \<or> l \<in> set (splitlines_from [] (d # s))" by auto
    with 3(2) [OF br] 3(4) show ?thesis by auto
  next
    case other
    with 3(5) have "l \<in> set (splitlines_from (c # cur) (d # s))" by auto
    moreover from other 3(4) have "\<forall>x\<in>set (c # cur). \<not> is_linebreak x" by simp
    ultimately show ?thesis using 3(3) [OF other] by blast
  qed
qed

lemma set_strip: "set (strip s) \<subseteq> set s"
proof
  fix c assume "c \<in> set (strip s)"
  then have "c \<in> set (dropWhile is_space (rev (dropWhile is_space s)))"
    by (simp add: strip_def)
  then have "c \<in> set (rev (dropWhile is_space s))" by (rule set_dropWhileD)
  then have "c \<in> set (dropWhile is_space s)" by simp
  then show "c \<in> set s" by (rule set_dropWhileD)
qed

lemma split_from_set:
  "l \<in> set (split_from cur s) \<Longrightarrow> set l \<subseteq> set cur \<union> set s"
  by (induction cur s rule: split_from.induct) (auto split: if_splits)

lemma join_set: "set (join sep ts) \<subseteq> set sep \<union> \<Union> (set ` set ts)"
  by (induction sep ts rule: join.induct) auto

definition tokens :: "string \<Rightarrow> string list" where
  "tokens text = filter (\<lambda>chunk. chunk \<noteq> [])
     (map strip (concat (map split_two_spaces (map strip (splitlines text)))))"

lemma clean_tokens: "clean text = join '' '' (tokens text)"
  by (simp add: clean_def tokens_def Let_def)

lemma tokens_trimmed: "list_all trimmed (tokens text)"
  unfolding list_all_iff
proof
  fix t assume "t \<in> set (tokens text)"
  then obtain x where "t = strip x" "t \<noteq> []" by (auto simp: tokens_def)
  then show "trimmed t" using strip_trimmed [of x] by simp
qed

lemma tokens_no_double_space: "list_all (\<lambda>t. \<not> double_space t) (tokens text)"
  unfolding list_all_iff
proof
  fix t assume "t \<in> set (tokens text)"
  then obtain line piece where
    p: "piece \<in> set (split_two_spaces (strip line))" and t: "t = strip piece"
    by (auto simp: tokens_def)
  from p have "\<not> double_space piece" by (rule split_two_spaces_no_double_space)
  with t show "\<not> double_space t" using double_space_strip [of piece] by blast
qed

lemma tokens_no_linebreak:
  assumes "t \<in> set (tokens text)" and "c \<in> set t"
  shows "\<not> is_linebreak c"
proof -
  from assms(1) obtain line piece where
    l: "line \<in> set (splitlines text)" and p: "piece \<in> set (split_two_spaces (strip line))"
    and t: "t = strip piece"
    by (auto simp: tokens_def)
  from l have "\<forall>c\<in>set line. \<not> is_linebreak c"
    unfolding splitlines_def by (rule splitlines_from_no_linebreak [rotated]) simp
  moreover from p have "set piece \<subseteq> set (strip line)"
    using split_from_set [of piece "[]" "strip line"] by (simp add: split_two_spaces_def)
  moreover note set_strip [of line] set_strip [of piece]
  ultimately show ?thesis using t assms(2) by blast
qed

lemma clean_properties:
  "\<not> list_ex is_linebreak (clean text) \<and> \<not> double_space (clean text)
   \<and> strip (clean text) = clean text"
proof -
  have a: "\<not> list_ex is_linebreak (clean text)"
    unfolding list_ex_iff clean_tokens
  proof
    assume "\<exists>c\<in>set (join '' '' (tokens text)). is_linebreak c"
    then obtain c where c: "c \<in> set (join '' '' (tokens text))" "is_linebreak c" by blast
    from c(1) join_set [of "'' ''" "tokens text"]
    have "c = CHR '' '' \<or> (\<exists>t\<in>set (tokens text). c \<in> set t)" by auto
    with c(2) tokens_no_linebreak [of _ "text" c] show False by auto
  qed
  show ?thesis
  proof (cases "tokens text = []")
    case True
    with a show ?thesis by (simp add: clean_tokens strip_def)
  next
    case False
    from join_trimmed [OF tokens_trimmed tokens_no_double_space False] a
    show ?thesis by (simp add: clean_tokens strip_of_trimmed)
  qed
qed

definition tabs_html :: string where
  "tabs_html = ''<p>a'' @ [CHR 0x09, CHR 0x09] @ ''b</p>''"

definition tabs_site :: env where
  \<comment> \<open>a paragraph with two tab characters between two letters\<close>
  "tabs_site = site_env [(''http://d/'', Inr (200, tabs_html))]
     [(tabs_html, [Tag ''p'' [] [NavigableString (''a'' @ [CHR 0x09, CHR 0x09] @ ''b'')]])]"

definition script_html :: string where
  "script_html = ''<p>a   b'' @ [CHR 0x0A, CHR 0x0A] @ '' c</p><script>var x;</script>''"

definition script_doc :: soup where
  "script_doc =
     [Tag ''p'' [] [NavigableString (''a   b'' @ [CHR 0x0A, CHR 0x0A] @ '' c'')],
      Tag ''script'' [] [NavigableString ''var x;'']]"

definition script_site :: env where
  \<comment> \<open>a paragraph with a run of spaces and a blank line, and a script\<close>
  "script_site = site_env [(''http://d/'', Inr (200, script_html))] [(script_html, script_doc)]"

text \<open>
  C6, as stated, fails: only line breaks and pairs of spaces separate chunks, so a run
  of tab characters inside a line is kept as it is.
\<close>

theorem whitespace_run_counterexample:
  "extract_text tabs_site tabs_html = Some [CHR ''a'', CHR 0x09, CHR 0x09, CHR ''b'']
   \<and> is_space (CHR 0x09)"
  by code_simp

text \<open>
  C6, amended.  For a page that parses, \<open>extract_text\<close> returns the text of the document
  without its \<open>script\<close> and \<open>style\<close> elements, so that the result does not depend on what
  these elements hold.  The text is cut at line breaks and at pairs of spaces, each
  piece is trimmed, and the pieces that are not empty are joined by single spaces: the
  result has no line break and no two adjacent spaces, and it neither starts nor ends
  with white space.  Other white space inside a line, such as tab characters, stays.
\<close>

theorem extract_text_cleans:
  assumes "BeautifulSoup E html = Some doc"
  shows "extract_text E html = Some (soup_text doc)
    \<and> soup_text (map (replace_hidden g) doc) = soup_text doc
    \<and> soup_text doc = join '' '' (tokens (get_text (decompose_all [''script'', ''style''] doc)))
    \<and> list_all trimmed (tokens (get_text (decompose_all [''script'', ''style''] doc)))
    \<and> \<not> list_ex is_linebreak (soup_text doc)
    \<and> \<not> double_space (soup_text doc)
    \<and> strip (soup_text doc) = soup_text doc"
proof -
  have "extract_text E html = Some (soup_text doc)"
    using assms by (simp add: extract_text_def)
  moreover have "soup_text (map (replace_hidden g) doc) = soup_text doc"
    by (simp add: soup_text_def decompose_all_replace_hidden)
  moreover have "soup_text doc =
      join '' '' (tokens (get_text (decompose_all [''script'', ''style''] doc)))"
    by (simp add: soup_text_def clean_tokens)
  moreover note tokens_trimmed [of "get_text (decompose_all [''script'', ''style''] doc)"]
  moreover have "\<not> list_ex is_linebreak (soup_text doc) \<and> \<not> double_space (soup_text doc)
      \<and> strip (soup_text doc) = soup_text doc"
    unfolding soup_text_def by (rule clean_properties)
  ultimately show ?thesis by blast
qed

theorem extract_text_cleans_witness:
  "BeautifulSoup script_site script_html = Some script_doc
   \<and> extract_text script_site script_html = Some ''a b c''
   \<and> soup_text (map (replace_hidden (\<lambda>cs. [NavigableString ''other''])) script_doc) = ''a b c''
   \<and> \<not> double_space ''a b c''"
proof -
  have h: "BeautifulSoup script_site script_html = Some script_doc" by code_simp
  have v: "soup_text script_doc = ''a b c''" by code_simp
  from extract_text_cleans [OF h, of "\<lambda>cs. [NavigableString ''other'']"]
  have "extract_text script_site script_html = Some (soup_text script_doc)"
    and "soup_text (map (replace_hidden (\<lambda>cs. [NavigableString ''other''])) script_doc) =
      soup_text script_doc"
    and "\<not> double_space (soup_text script_doc)"
    by blast+
  then show ?thesis using h unfolding v by blast
qed

end
